theory Spec2Isabelle
  imports Main "HOL-Library.Word" "HOL-Library.Monad_Syntax"
begin

unbundle bit_operations_syntax

section \<open>Cells and the coordinate encoding (Organism.h, lines 15-44)\<close>

text \<open>
  \<^verbatim>\<open>cell_coord_type\<close> is \<^verbatim>\<open>int32_t\<close>, \<^verbatim>\<open>cell_whole_type\<close> is \<^verbatim>\<open>uint64_t\<close> and
  \<^verbatim>\<open>cell_signed_whole_type\<close> is \<^verbatim>\<open>int64_t\<close>. All three are words; the signed ones are
  read with \<open>sint\<close>. Coordinate arithmetic (\<^verbatim>\<open>x-1\<close>, \<^verbatim>\<open>x+1\<close>) is two's complement
  arithmetic on 32 bits: the key keeps only the low 32 bits of each coordinate, so the
  key of a neighbour is the same whether the sum is formed in 32 or in 64 bits. The
  left shift of a negative \<^verbatim>\<open>int64_t\<close> in \<^verbatim>\<open>WW\<close> is the shift of its bit pattern.
\<close>

type_synonym cell_coord_type = "32 word"
type_synonym cell_whole_type = "64 word"
type_synonym cell_signed_whole_type = "64 word"

text \<open>\<^verbatim>\<open>#define XX(w) ((cell_coord_type)(w))\<close>\<close>

definition XX :: "cell_whole_type \<Rightarrow> cell_coord_type" where
  "XX w = ucast w"

text \<open>\<^verbatim>\<open>#define YY(w) ((cell_coord_type)(((w) >> 32) & 0xFFFFFFFF))\<close>\<close>

definition YY :: "cell_whole_type \<Rightarrow> cell_coord_type" where
  "YY w = ucast (drop_bit 32 w AND 0xFFFFFFFF)"

text \<open>
  \<^verbatim>\<open>#define WW(x, y) (((cell_signed_whole_type)(y) << 32) |
                     ((cell_signed_whole_type)(x) & 0xFFFFFFFF))\<close>
  The casts from \<^verbatim>\<open>int32_t\<close> to \<^verbatim>\<open>int64_t\<close> extend the sign (\<open>scast\<close>).
\<close>

definition WW :: "cell_coord_type \<Rightarrow> cell_coord_type \<Rightarrow> cell_whole_type" where
  "WW x y = push_bit 32 (scast y :: cell_signed_whole_type)
              OR ((scast x :: cell_signed_whole_type) AND 0xFFFFFFFF)"

text \<open>
  \<^verbatim>\<open>struct Cell { cell_coord_type x; cell_coord_type y; ... }\<close> with its two
  constructors. The fields are named \<open>cell_x\<close> and \<open>cell_y\<close> here.
\<close>

datatype Cell = Cell (cell_x: cell_coord_type) (cell_y: cell_coord_type)

definition Cell_of_whole :: "cell_whole_type \<Rightarrow> Cell" where
  "Cell_of_whole w = Cell (XX w) (YY w)"

text \<open>
  \<^verbatim>\<open>operator<(const Cell& lhs, const Cell& rhs)\<close>: the comparisons are comparisons of
  \<^verbatim>\<open>int32_t\<close>, that is of the signed readings.
\<close>

definition cell_less :: "Cell \<Rightarrow> Cell \<Rightarrow> bool" where
  "cell_less lhs rhs =
     (if sint (cell_x lhs) < sint (cell_x rhs) then True
      else if sint (cell_x lhs) > sint (cell_x rhs) then False
      else sint (cell_y lhs) < sint (cell_y rhs))"

section \<open>The organism (Organism.h, lines 46-122)\<close>

text \<open>
  \<^verbatim>\<open>cell_lookup_type\<close> is a \<^verbatim>\<open>std::unordered_set\<close> of keys. It is modelled by the list of
  its elements in the order in which the set enumerates them; a set holds no key twice,
  so the lists that stand for sets are the \<open>distinct\<close> ones. The order of enumeration
  is not fixed by the container, so results are stated about \<open>set\<close> of the list or for
  every order. \<^verbatim>\<open>reserve\<close> changes capacity only and is left out.
\<close>

type_synonym cell_lookup_type = "cell_whole_type list"
type_synonym cell_list_type = "Cell list"

record Organism =
  cells_m :: cell_lookup_type

text \<open>\<^verbatim>\<open>Organism(size_t ncell = 1000) { cells_m.reserve(ncell); }\<close>\<close>

definition Organism_new :: Organism where
  "Organism_new = \<lparr>cells_m = []\<rparr>"

text \<open>
  \<^verbatim>\<open>unordered_set::insert\<close>: the new container and the \<^verbatim>\<open>.second\<close> of the returned pair,
  which tells whether the key was added.
\<close>

definition lookup_insert :: "cell_whole_type \<Rightarrow> cell_lookup_type \<Rightarrow> cell_lookup_type \<times> bool" where
  "lookup_insert w cells = (if w \<in> set cells then (cells, False) else (cells @ [w], True))"

text \<open>\<^verbatim>\<open>size_t\<close> values are natural numbers here: none of them exceeds the population.\<close>

definition count :: "Organism \<Rightarrow> nat" where
  "count org = length (cells_m org)"

definition is_alive :: "Organism \<Rightarrow> cell_whole_type \<Rightarrow> nat" where
  "is_alive org w = (if w \<in> set (cells_m org) then 1 else 0)"

definition is_dead :: "Organism \<Rightarrow> cell_whole_type \<Rightarrow> nat" where
  "is_dead org w = (if w \<notin> set (cells_m org) then 1 else 0)"

text \<open>\<^verbatim>\<open>insert_cells\<close>: the loop over the input, carrying the organism and \<^verbatim>\<open>n_inserted\<close>.\<close>

fun insert_cells_loop :: "cell_list_type \<Rightarrow> Organism \<Rightarrow> nat \<Rightarrow> Organism \<times> nat" where
  "insert_cells_loop [] org n_inserted = (org, n_inserted)"
| "insert_cells_loop (c # cs) org n_inserted =
     (case lookup_insert (WW (cell_x c) (cell_y c)) (cells_m org) of
        (cells', added) \<Rightarrow>
          insert_cells_loop cs (org\<lparr>cells_m := cells'\<rparr>)
            (if added then n_inserted + 1 else n_inserted))"

definition insert_cells :: "Organism \<Rightarrow> cell_list_type \<Rightarrow> Organism \<times> nat" where
  "insert_cells org cells = insert_cells_loop cells org 0"

text \<open>
  \<^verbatim>\<open>get_live_cells\<close> builds a vector of \<^verbatim>\<open>Cell\<close> from the keys (through the constructor
  \<^verbatim>\<open>Cell(cell_whole_type)\<close>) and calls \<^verbatim>\<open>std::sort\<close>, which orders by \<^verbatim>\<open>operator<\<close>. The
  sort is modelled by insertion sort on \<open>cell_less\<close>.
\<close>

fun cell_insort :: "Cell \<Rightarrow> Cell list \<Rightarrow> Cell list" where
  "cell_insort c [] = [c]"
| "cell_insort c (d # ds) = (if cell_less d c then d # cell_insort c ds else c # d # ds)"

fun cell_sort :: "Cell list \<Rightarrow> Cell list" where
  "cell_sort [] = []"
| "cell_sort (c # cs) = cell_insort c (cell_sort cs)"

definition get_live_cells :: "Organism \<Rightarrow> cell_list_type" where
  "get_live_cells org = cell_sort (map Cell_of_whole (cells_m org))"

text \<open>\<^verbatim>\<open>get_num_live\<close>: the sum of the eight \<^verbatim>\<open>is_alive\<close> results, in the order of the source.\<close>

definition get_num_live :: "Organism \<Rightarrow> cell_coord_type \<Rightarrow> cell_coord_type \<Rightarrow> nat" where
  "get_num_live org x y =
       is_alive org (WW (x - 1) (y - 1))
     + is_alive org (WW (x - 1) y)
     + is_alive org (WW (x - 1) (y + 1))
     + is_alive org (WW x (y - 1))
     + is_alive org (WW x (y + 1))
     + is_alive org (WW (x + 1) (y - 1))
     + is_alive org (WW (x + 1) y)
     + is_alive org (WW (x + 1) (y + 1))"

text \<open>
  The caller's buffer \<^verbatim>\<open>cell_whole_type* z\<close> is a list; a write or a read at an index
  that is not below its length is an access outside the array and gives \<open>None\<close>.
\<close>

type_synonym buffer = "cell_whole_type list"

definition buf_write :: "buffer \<Rightarrow> nat \<Rightarrow> cell_whole_type \<Rightarrow> buffer option" where
  "buf_write z n w = (if n < length z then Some (z[n := w]) else None)"

definition buf_read :: "buffer \<Rightarrow> nat \<Rightarrow> cell_whole_type option" where
  "buf_read z i = (if i < length z then Some (z ! i) else None)"

text \<open>One line \<^verbatim>\<open>if (is_dead(w)) z[n++] = w;\<close> on the pair of \<^verbatim>\<open>n\<close> and the buffer.\<close>

definition store_if_dead :: "Organism \<Rightarrow> cell_whole_type \<Rightarrow> nat \<times> buffer \<Rightarrow> (nat \<times> buffer) option" where
  "store_if_dead org w = (\<lambda>(n, z).
     if is_dead org w \<noteq> 0
     then (case buf_write z n w of None \<Rightarrow> None | Some z' \<Rightarrow> Some (n + 1, z'))
     else Some (n, z))"

text \<open>\<^verbatim>\<open>get_dead_cells\<close> returns \<^verbatim>\<open>n\<close>; the buffer it wrote is returned with it.\<close>

definition get_dead_cells ::
  "Organism \<Rightarrow> cell_coord_type \<Rightarrow> cell_coord_type \<Rightarrow> buffer \<Rightarrow> (nat \<times> buffer) option" where
  "get_dead_cells org x y z =
     Some (0, z)
       \<bind> store_if_dead org (WW (x - 1) (y - 1))
       \<bind> store_if_dead org (WW (x - 1) y)
       \<bind> store_if_dead org (WW (x - 1) (y + 1))
       \<bind> store_if_dead org (WW x (y - 1))
       \<bind> store_if_dead org (WW x (y + 1))
       \<bind> store_if_dead org (WW (x + 1) (y - 1))
       \<bind> store_if_dead org (WW (x + 1) y)
       \<bind> store_if_dead org (WW (x + 1) (y + 1))"

text \<open>
  The inner loop of \<^verbatim>\<open>tick\<close>:
  \<^verbatim>\<open>for (size_t i = 0; i < ndead; ++i)
     if (get_num_live(XX(zcells[i]), YY(zcells[i])) == 3) new_cells.insert(zcells[i]);\<close>
\<close>

function birth_loop ::
  "Organism \<Rightarrow> buffer \<Rightarrow> nat \<Rightarrow> nat \<Rightarrow> cell_lookup_type \<Rightarrow> cell_lookup_type option" where
  "birth_loop org zcells i ndead new_cells =
     (if i < ndead
      then (case buf_read zcells i of
              None \<Rightarrow> None
            | Some zi \<Rightarrow>
                birth_loop org zcells (i + 1) ndead
                  (if get_num_live org (XX zi) (YY zi) = 3
                   then fst (lookup_insert zi new_cells) else new_cells))
      else Some new_cells)"
  by pat_completeness auto
termination
  by (relation "measure (\<lambda>(org, zcells, i, ndead, new_cells). ndead - i)") auto

declare birth_loop.simps [simp del]

text \<open>
  The outer loop \<^verbatim>\<open>for (const auto& c : cells_m)\<close> over the keys still to be visited.
  \<^verbatim>\<open>zcells\<close> is declared outside the loop, so the buffer is carried from one cell to the
  next.
\<close>

fun tick_loop ::
  "Organism \<Rightarrow> cell_whole_type list \<Rightarrow> buffer \<Rightarrow> cell_lookup_type \<Rightarrow> cell_lookup_type option" where
  "tick_loop org [] zcells new_cells = Some new_cells"
| "tick_loop org (c # cs) zcells new_cells =
     (case get_dead_cells org (XX c) (YY c) zcells of
        None \<Rightarrow> None
      | Some (ndead, zcells') \<Rightarrow>
          (case birth_loop org zcells' 0 ndead
                  (if ndead = 5 \<or> ndead = 6
                   then fst (lookup_insert c new_cells) else new_cells) of
             None \<Rightarrow> None
           | Some new_cells' \<Rightarrow> tick_loop org cs zcells' new_cells'))"

text \<open>
  \<^verbatim>\<open>tick\<close>. The array \<^verbatim>\<open>cell_whole_type zcells[8]\<close> starts uninitialised; it is taken as
  eight zeros, and \<open>tick_loop_buffer_irrelevant\<close> below shows that its contents do not
  matter.
\<close>

definition tick :: "Organism \<Rightarrow> Organism option" where
  "tick org =
     (case tick_loop org (cells_m org) (replicate 8 0) [] of
        None \<Rightarrow> None
      | Some new_cells \<Rightarrow> Some (org\<lparr>cells_m := new_cells\<rparr>))"

text \<open>
  The reference stepper of the specification, for comparison: the same pass with the
  survival test written as "2 or 3 live neighbours".
\<close>

fun tick_loop_ref ::
  "Organism \<Rightarrow> cell_whole_type list \<Rightarrow> buffer \<Rightarrow> cell_lookup_type \<Rightarrow> cell_lookup_type option" where
  "tick_loop_ref org [] zcells new_cells = Some new_cells"
| "tick_loop_ref org (c # cs) zcells new_cells =
     (case get_dead_cells org (XX c) (YY c) zcells of
        None \<Rightarrow> None
      | Some (ndead, zcells') \<Rightarrow>
          (case birth_loop org zcells' 0 ndead
                  (if get_num_live org (XX c) (YY c) = 2 \<or> get_num_live org (XX c) (YY c) = 3
                   then fst (lookup_insert c new_cells) else new_cells) of
             None \<Rightarrow> None
           | Some new_cells' \<Rightarrow> tick_loop_ref org cs zcells' new_cells'))"

definition tick_ref :: "Organism \<Rightarrow> Organism option" where
  "tick_ref org =
     (case tick_loop_ref org (cells_m org) (replicate 8 0) [] of
        None \<Rightarrow> None
      | Some new_cells \<Rightarrow> Some (org\<lparr>cells_m := new_cells\<rparr>))"

text \<open>
  The Chebyshev distance of two cells, on the signed readings of the coordinates, and
  the cells that lie on the border of the 32-bit range.
\<close>

definition chebyshev :: "Cell \<Rightarrow> Cell \<Rightarrow> int" where
  "chebyshev c d =
     max \<bar>sint (cell_x c) - sint (cell_x d)\<bar> \<bar>sint (cell_y c) - sint (cell_y d)\<bar>"

definition on_border :: "Cell \<Rightarrow> bool" where
  "on_border c \<longleftrightarrow>
     sint (cell_x c) = - (2 ^ 31) \<or> sint (cell_x c) = 2 ^ 31 - 1 \<or>
     sint (cell_y c) = - (2 ^ 31) \<or> sint (cell_y c) = 2 ^ 31 - 1"

text \<open>The eight Moore neighbours of a cell as keys, in the scan order of the source.\<close>

definition moore :: "cell_coord_type \<Rightarrow> cell_coord_type \<Rightarrow> cell_whole_type list" where
  "moore x y =
     [WW (x - 1) (y - 1), WW (x - 1) y, WW (x - 1) (y + 1),
      WW x (y - 1), WW x (y + 1),
      WW (x + 1) (y - 1), WW (x + 1) y, WW (x + 1) (y + 1)]"

text \<open>
  The live-neighbour count of the specification's unbounded lattice, for comparison with
  \<open>get_num_live\<close>: the number of live cells at Chebyshev distance exactly 1 from the cell
  \<open>(x, y)\<close>, with no wrap-around.
\<close>

definition lattice_num_live :: "Organism \<Rightarrow> cell_coord_type \<Rightarrow> cell_coord_type \<Rightarrow> nat" where
  "lattice_num_live org x y =
     length (filter (\<lambda>v. chebyshev (Cell_of_whole v) (Cell x y) = 1) (remdups (cells_m org)))"

section \<open>Auxiliary notions for the proofs\<close>

text \<open>
  The offsets of the Moore neighbourhood, the dead neighbours of a cell in scan order,
  the live-neighbour count of a key, and the effect of the two loops of \<^verbatim>\<open>tick\<close> as
  folds. The loops of the model are shown equal to these folds below.
\<close>

definition offsets :: "(cell_coord_type \<times> cell_coord_type) list" where
  "offsets = [(- 1, - 1), (- 1, 0), (- 1, 1), (0, - 1), (0, 1), (1, - 1), (1, 0), (1, 1)]"

definition dead_moore :: "Organism \<Rightarrow> cell_whole_type \<Rightarrow> cell_whole_type list" where
  "dead_moore org c = filter (\<lambda>w. w \<notin> set (cells_m org)) (moore (XX c) (YY c))"

definition nlive :: "Organism \<Rightarrow> cell_whole_type \<Rightarrow> nat" where
  "nlive org w = get_num_live org (XX w) (YY w)"

definition births :: "Organism \<Rightarrow> cell_whole_type list \<Rightarrow> cell_lookup_type \<Rightarrow> cell_lookup_type" where
  "births org ws new_cells =
     foldl (\<lambda>new w. if nlive org w = 3 then fst (lookup_insert w new) else new) new_cells ws"

definition cell_step :: "Organism \<Rightarrow> cell_lookup_type \<Rightarrow> cell_whole_type \<Rightarrow> cell_lookup_type" where
  "cell_step org new_cells c =
     births org (dead_moore org c)
       (if length (dead_moore org c) = 5 \<or> length (dead_moore org c) = 6
        then fst (lookup_insert c new_cells) else new_cells)"

text \<open>The key under which \<^verbatim>\<open>insert_cells\<close> stores a cell.\<close>

definition cell_key :: "Cell \<Rightarrow> cell_whole_type" where
  "cell_key c = WW (cell_x c) (cell_y c)"

section \<open>Facts about the encoding\<close>

lemma low_mask: "(0xFFFFFFFF :: 64 word) = mask 32"
  by (simp add: mask_eq_decr_exp)

lemma XX_WW [simp]: "XX (WW x y) = x"
  unfolding XX_def WW_def low_mask
  by (rule bit_word_eqI) (auto simp: bit_simps)

lemma YY_WW [simp]: "YY (WW x y) = y"
  unfolding YY_def WW_def low_mask
  by (rule bit_word_eqI) (auto simp: bit_simps)

lemma WW_XX_YY [simp]: "WW (XX w) (YY w) = w"
proof (rule bit_word_eqI)
  fix n :: nat
  assume n: "n < LENGTH(64)"
  show "bit (WW (XX w) (YY w)) n = bit w n"
  proof (cases "n < 32")
    case True
    then have "min 31 n = n" by simp
    with True show ?thesis
      unfolding XX_def YY_def WW_def low_mask by (simp add: bit_simps)
  next
    case False
    with n have "min 31 (n - 32) = n - 32" "32 + (n - 32) = n" by simp_all
    with False n show ?thesis
      unfolding XX_def YY_def WW_def low_mask by (simp add: bit_simps)
  qed
qed

lemma WW_eq_iff [simp]: "WW x y = WW x' y' \<longleftrightarrow> x = x' \<and> y = y'"
  by (metis XX_WW YY_WW)

section \<open>Neighbourhoods and the buffer\<close>

lemma is_alive_iff: "is_alive org w = (if w \<in> set (cells_m org) then 1 else 0)"
  by (simp add: is_alive_def)

lemma length_filter_sum: "length (filter P xs) = sum_list (map (\<lambda>w. if P w then 1 else 0) xs)"
  by (induction xs) auto

lemma get_num_live_moore:
  "get_num_live org x y = length (filter (\<lambda>w. w \<in> set (cells_m org)) (moore x y))"
  unfolding length_filter_sum by (simp add: get_num_live_def moore_def is_alive_def)

lemma length_moore [simp]: "length (moore x y) = 8"
  by (simp add: moore_def)

lemma store_if_dead_step:
  "store_if_dead org w (n, z) =
     (if w \<notin> set (cells_m org) then (if n < length z then Some (Suc n, z[n := w]) else None)
      else Some (n, z))"
  by (simp add: store_if_dead_def is_dead_def buf_write_def)

lemma get_dead_cells_foldl:
  "get_dead_cells org x y z =
     foldl (\<lambda>st w. st \<bind> store_if_dead org w) (Some (0, z)) (moore x y)"
  by (simp add: get_dead_cells_def moore_def)

lemma foldl_store_None:
  "foldl (\<lambda>st w. st \<bind> store_if_dead org w) None ws = None"
  by (induction ws) auto

lemma foldl_store_count:
  "foldl (\<lambda>st w. st \<bind> store_if_dead org w) (Some (n, z)) ws = Some (n', z')
   \<Longrightarrow> n' = n + length (filter (\<lambda>w. w \<notin> set (cells_m org)) ws)"
proof (induction ws arbitrary: n z)
  case Nil
  then show ?case by simp
next
  case (Cons w ws)
  show ?case
  proof (cases "w \<in> set (cells_m org)")
    case True
    with Cons.prems Cons.IH [of n z] show ?thesis
      by (simp add: store_if_dead_step)
  next
    case False
    show ?thesis
    proof (cases "n < length z")
      case True
      with False Cons.prems Cons.IH [of "Suc n" "z[n := w]"] show ?thesis
        by (simp add: store_if_dead_step)
    next
      case nofit: False
      with False Cons.prems show ?thesis
        by (simp add: store_if_dead_step foldl_store_None)
    qed
  qed
qed

lemma foldl_store_fits:
  "n + length ws \<le> length z \<Longrightarrow>
   foldl (\<lambda>st w. st \<bind> store_if_dead org w) (Some (n, z)) ws =
     Some (n + length (filter (\<lambda>w. w \<notin> set (cells_m org)) ws),
           take n z @ filter (\<lambda>w. w \<notin> set (cells_m org)) ws
             @ drop (n + length (filter (\<lambda>w. w \<notin> set (cells_m org)) ws)) z)"
proof (induction ws arbitrary: n z)
  case Nil
  then show ?case by simp
next
  case (Cons w ws)
  show ?case
  proof (cases "w \<in> set (cells_m org)")
    case True
    with Cons.prems Cons.IH [of n z] show ?thesis
      by (simp add: store_if_dead_step)
  next
    case False
    from Cons.prems have n: "n < length z" and fit: "Suc n + length ws \<le> length (z[n := w])"
      by simp_all
    from n have tk: "take (Suc n) (z[n := w]) = take n z @ [w]"
      by (simp add: take_Suc_conv_app_nth)
    from False n Cons.IH [OF fit] show ?thesis
      by (simp add: store_if_dead_step tk)
  qed
qed

lemma moore_offsets: "moore x y = map (\<lambda>(dx, dy). WW (x + dx) (y + dy)) offsets"
  by (simp add: moore_def offsets_def)

lemma offsets_neg: "(dx, dy) \<in> set offsets \<Longrightarrow> (- dx, - dy) \<in> set offsets"
  by (auto simp: offsets_def)

lemma moore_sym_WW:
  assumes "w' \<in> set (moore x y)"
  shows "WW x y \<in> set (moore (XX w') (YY w'))"
proof -
  from assms obtain dx dy where d: "(dx, dy) \<in> set offsets" and w': "w' = WW (x + dx) (y + dy)"
    by (auto simp: moore_offsets)
  have eq: "WW x y = (\<lambda>(ex, ey). WW (x + dx + ex) (y + dy + ey)) (- dx, - dy)"
    by simp
  from eq offsets_neg [OF d] show ?thesis
    unfolding w' moore_offsets XX_WW YY_WW set_map by (rule image_eqI)
qed

lemma moore_sym:
  "w' \<in> set (moore (XX w) (YY w)) \<Longrightarrow> w \<in> set (moore (XX w') (YY w'))"
  using moore_sym_WW [of w' "XX w" "YY w"] by simp

lemma moore_not_self: "WW x y \<notin> set (moore x y)"
  by (simp add: moore_def)

lemma distinct_moore: "distinct (moore x y)"
  by (simp add: moore_def)

section \<open>The loops of tick\<close>

lemma nlive_ndead: "nlive org c + length (dead_moore org c) = 8"
  unfolding nlive_def dead_moore_def get_num_live_moore
  using sum_length_filter_compl [of "\<lambda>w. w \<in> set (cells_m org)" "moore (XX c) (YY c)"]
  by simp

lemma length_dead_moore: "length (dead_moore org c) \<le> 8"
  using nlive_ndead [of org c] by simp

lemma get_dead_cells_fits:
  assumes "length z = 8"
  shows "get_dead_cells org (XX c) (YY c) z =
           Some (length (dead_moore org c), dead_moore org c @ drop (length (dead_moore org c)) z)"
  unfolding get_dead_cells_foldl dead_moore_def
  using foldl_store_fits [of 0 "moore (XX c) (YY c)" z org] assms by simp

lemma set_lookup_insert [simp]: "set (fst (lookup_insert w cells)) = insert w (set cells)"
  by (auto simp: lookup_insert_def)

lemma distinct_lookup_insert [simp]: "distinct (fst (lookup_insert w cells)) = distinct cells"
  by (auto simp: lookup_insert_def)

lemma set_births: "set (births org ws new) = set new \<union> {w \<in> set ws. nlive org w = 3}"
  unfolding births_def by (induction ws arbitrary: new) auto

lemma distinct_births: "distinct (births org ws new) = distinct new"
  unfolding births_def by (induction ws arbitrary: new) auto

lemma birth_loop_births:
  "ndead \<le> length z \<Longrightarrow>
   birth_loop org z i ndead new = Some (births org (drop i (take ndead z)) new)"
proof (induction org z i ndead new rule: birth_loop.induct)
  case (1 org zcells i ndead new_cells)
  show ?case
  proof (cases "i < ndead")
    case True
    with "1.prems" have i: "i < length zcells" by simp
    from True i have dr: "drop i (take ndead zcells) = zcells ! i # drop (Suc i) (take ndead zcells)"
      by (simp add: Cons_nth_drop_Suc [symmetric])
    from True i "1.prems" "1.IH" [of "zcells ! i"] show ?thesis
      unfolding dr by (subst birth_loop.simps) (simp add: buf_read_def births_def nlive_def)
  next
    case False
    then show ?thesis
      by (subst birth_loop.simps) (simp add: births_def)
  qed
qed

lemma tick_loop_foldl:
  "length z = 8 \<Longrightarrow> tick_loop org cs z new = Some (foldl (cell_step org) new cs)"
proof (induction cs arbitrary: z new)
  case Nil
  then show ?case by simp
next
  case (Cons c cs)
  let ?ds = "dead_moore org c"
  let ?z = "?ds @ drop (length ?ds) z"
  from Cons.prems length_dead_moore [of org c] have len: "length ?z = 8" by simp
  have bl: "birth_loop org ?z 0 (length ?ds) acc = Some (births org ?ds acc)" for acc
    using birth_loop_births [of "length ?ds" ?z org 0 acc] by simp
  show ?case
    by (simp add: get_dead_cells_fits [OF Cons.prems] bl Cons.IH [OF len] cell_step_def)
qed

lemma tick_foldl: "tick org = Some (org\<lparr>cells_m := foldl (cell_step org) [] (cells_m org)\<rparr>)"
  by (simp add: tick_def tick_loop_foldl)

lemma survive_iff:
  "(length (dead_moore org c) = 5 \<or> length (dead_moore org c) = 6) \<longleftrightarrow>
   (nlive org c = 2 \<or> nlive org c = 3)"
  using nlive_ndead [of org c] by auto

lemma set_cell_step:
  "set (cell_step org new c) =
     set new \<union> (if nlive org c = 2 \<or> nlive org c = 3 then {c} else {})
       \<union> {d \<in> set (dead_moore org c). nlive org d = 3}"
  unfolding cell_step_def survive_iff by (auto simp: set_births)

lemma set_foldl_cell_step:
  "set (foldl (cell_step org) new cs) =
     set new \<union> {c \<in> set cs. nlive org c = 2 \<or> nlive org c = 3}
       \<union> {d. \<exists>c \<in> set cs. d \<in> set (dead_moore org c) \<and> nlive org d = 3}"
proof (induction cs arbitrary: new)
  case Nil
  then show ?case by simp
next
  case (Cons c cs)
  show ?case
    unfolding foldl_Cons Cons.IH set_cell_step by auto
qed

lemma distinct_foldl_cell_step:
  "distinct (foldl (cell_step org) new cs) = distinct new"
  by (induction cs arbitrary: new) (simp_all add: cell_step_def distinct_births)

lemma born_has_live_neighbour:
  assumes "nlive org d = 3"
  shows "\<exists>c \<in> set (cells_m org). d \<in> set (moore (XX c) (YY c))"
proof -
  from assms have "filter (\<lambda>w. w \<in> set (cells_m org)) (moore (XX d) (YY d)) \<noteq> []"
    unfolding nlive_def get_num_live_moore by auto
  then obtain c where c: "c \<in> set (cells_m org)" "c \<in> set (moore (XX d) (YY d))"
    by (auto simp: filter_empty_conv)
  from moore_sym [OF c(2)] c(1) show ?thesis by blast
qed

lemma births_reached:
  "{d. \<exists>c \<in> set (cells_m org). d \<in> set (dead_moore org c) \<and> nlive org d = 3} =
   {d. d \<notin> set (cells_m org) \<and> nlive org d = 3}"
  using born_has_live_neighbour by (auto simp: dead_moore_def)

lemma set_next_generation:
  "set (foldl (cell_step org) [] (cells_m org)) =
     {c \<in> set (cells_m org). nlive org c = 2 \<or> nlive org c = 3}
       \<union> {d. d \<notin> set (cells_m org) \<and> nlive org d = 3}"
  unfolding set_foldl_cell_step births_reached by simp

lemma get_dead_cells_count:
  assumes "get_dead_cells org (XX c) (YY c) z = Some (n, z')"
  shows "n = length (dead_moore org c)"
  using foldl_store_count [of org 0 z "moore (XX c) (YY c)" n z'] assms
  by (simp add: get_dead_cells_foldl dead_moore_def)

lemma tick_loop_ref_eq: "tick_loop_ref org cs z new = tick_loop org cs z new"
proof (induction cs arbitrary: z new)
  case Nil
  show ?case by simp
next
  case (Cons c cs)
  show ?case
  proof (cases "get_dead_cells org (XX c) (YY c) z")
    case None
    then show ?thesis by simp
  next
    case (Some r)
    obtain n z' where r: "r = (n, z')" by (cases r)
    from Some r have "n = length (dead_moore org c)"
      by (simp add: get_dead_cells_count)
    then have test: "(get_num_live org (XX c) (YY c) = 2 \<or> get_num_live org (XX c) (YY c) = 3)
        \<longleftrightarrow> (n = 5 \<or> n = 6)"
      using survive_iff [of org c] by (simp add: nlive_def)
    show ?thesis
      unfolding tick_loop_ref.simps tick_loop.simps Some r test
      by (simp add: Cons.IH cong: option.case_cong)
  qed
qed

lemma nlive_cong:
  "set (cells_m s) = set (cells_m t) \<Longrightarrow> nlive s w = nlive t w"
  by (simp add: nlive_def get_num_live_moore)

lemma tick_loop_buffer_irrelevant:
  "length z = 8 \<Longrightarrow> length z' = 8 \<Longrightarrow> tick_loop org cs z new = tick_loop org cs z' new"
  by (simp add: tick_loop_foldl)

lemma rep8: "replicate 8 x = [x, x, x, x, x, x, x, x]"
  by (simp add: numeral_eq_Suc)

text \<open>A buffer of seven entries is too short next to a cell with eight dead neighbours.\<close>

lemma get_dead_cells_short_buffer:
  "get_dead_cells Organism_new 0 0 (replicate 7 0) = None"
  by (simp add: get_dead_cells_def store_if_dead_step Organism_new_def)

lemma length_lookup_insert: "length (fst (lookup_insert w cells)) \<le> Suc (length cells)"
  by (simp add: lookup_insert_def)

lemma length_births: "length (births org ws new) \<le> length new + length ws"
  unfolding births_def
proof (induction ws arbitrary: new)
  case Nil
  show ?case by simp
next
  case (Cons w ws)
  show ?case
    using Cons.IH [of "fst (lookup_insert w new)"] Cons.IH [of new] length_lookup_insert [of w new]
    by auto
qed

lemma length_cell_step: "length (cell_step org new c) \<le> length new + 9"
  unfolding cell_step_def
  using length_births [of org "dead_moore org c" "fst (lookup_insert c new)"]
    length_births [of org "dead_moore org c" new]
    length_lookup_insert [of c new] length_dead_moore [of org c]
  by auto

lemma length_foldl_cell_step:
  "length (foldl (cell_step org) new cs) \<le> length new + 9 * length cs"
proof (induction cs arbitrary: new)
  case Nil
  show ?case by simp
next
  case (Cons c cs)
  show ?case
    using Cons.IH [of "cell_step org new c"] length_cell_step [of org new c] by simp
qed

lemma set_foldl_cell_step_cong:
  assumes "set es = set cs"
  shows "set (foldl (cell_step org) [] es) = set (foldl (cell_step org) [] cs)"
  unfolding set_foldl_cell_step assms ..

section \<open>Seeding and sorted output\<close>

lemma inj_cell_key: "inj cell_key"
  by (auto simp: inj_def cell_key_def Cell.expand)

lemma Cell_of_whole_key [simp]: "Cell_of_whole (cell_key c) = c"
  by (simp add: Cell_of_whole_def cell_key_def)

lemma cell_key_of_whole [simp]: "cell_key (Cell_of_whole w) = w"
  by (simp add: Cell_of_whole_def cell_key_def)

lemma insert_cells_loop_cells:
  "set (cells_m (fst (insert_cells_loop cs org n))) = set (cells_m org) \<union> cell_key ` set cs"
  by (induction cs arbitrary: org n) (auto simp: lookup_insert_def cell_key_def)

lemma insert_cells_loop_distinct:
  "distinct (cells_m (fst (insert_cells_loop cs org n))) = distinct (cells_m org)"
  by (induction cs arbitrary: org n) (auto simp: lookup_insert_def)

lemma insert_cells_loop_present:
  "cell_key ` set cs \<subseteq> set (cells_m org) \<Longrightarrow> insert_cells_loop cs org n = (org, n)"
  by (induction cs arbitrary: org n) (auto simp: lookup_insert_def cell_key_def)

lemma card_new_step:
  assumes "finite K" "k \<notin> S"
  shows "card (insert k K - S) = Suc (card (K - insert k S))"
proof -
  have "insert k K - S = insert k (K - insert k S)" using assms by auto
  moreover have "k \<notin> K - insert k S" by simp
  ultimately show ?thesis using assms by simp
qed

lemma insert_cells_loop_count:
  "snd (insert_cells_loop cs org n) = n + card (cell_key ` set cs - set (cells_m org))"
proof (induction cs arbitrary: org n)
  case Nil
  show ?case by simp
next
  case (Cons c cs)
  show ?case
  proof (cases "cell_key c \<in> set (cells_m org)")
    case True
    then have "cell_key ` set (c # cs) - set (cells_m org) = cell_key ` set cs - set (cells_m org)"
      by auto
    with True Cons.IH [of org n] show ?thesis
      by (simp add: lookup_insert_def cell_key_def [symmetric])
  next
    case False
    then have "card (cell_key ` set (c # cs) - set (cells_m org)) =
        Suc (card (cell_key ` set cs - insert (cell_key c) (set (cells_m org))))"
      by (simp add: card_new_step)
    with False Cons.IH [of "org\<lparr>cells_m := cells_m org @ [cell_key c]\<rparr>" "Suc n"] show ?thesis
      by (simp add: lookup_insert_def cell_key_def [symmetric])
  qed
qed

lemma cell_less_alt:
  "cell_less c d \<longleftrightarrow>
     sint (cell_x c) < sint (cell_x d) \<or>
     (sint (cell_x c) = sint (cell_x d) \<and> sint (cell_y c) < sint (cell_y d))"
  by (auto simp: cell_less_def)

lemma cell_less_irrefl: "\<not> cell_less c c"
  by (simp add: cell_less_alt)

lemma cell_less_trans: "cell_less a b \<Longrightarrow> cell_less b c \<Longrightarrow> cell_less a c"
  by (auto simp: cell_less_alt)

lemma cell_less_total: "a \<noteq> b \<Longrightarrow> \<not> cell_less b a \<Longrightarrow> cell_less a b"
proof -
  assume ne: "a \<noteq> b" and nl: "\<not> cell_less b a"
  from ne have "cell_x a \<noteq> cell_x b \<or> cell_y a \<noteq> cell_y b"
    by (auto simp: Cell.expand)
  then have "sint (cell_x a) \<noteq> sint (cell_x b) \<or> sint (cell_y a) \<noteq> sint (cell_y b)"
    by (auto dest: signed_word_eqI)
  with nl show ?thesis by (auto simp: cell_less_alt)
qed

lemma set_cell_insort [simp]: "set (cell_insort c ds) = insert c (set ds)"
  by (induction ds) auto

lemma length_cell_insort [simp]: "length (cell_insort c ds) = Suc (length ds)"
  by (induction ds) auto

lemma sorted_cell_insort:
  "sorted_wrt cell_less ds \<Longrightarrow> c \<notin> set ds \<Longrightarrow> sorted_wrt cell_less (cell_insort c ds)"
proof (induction ds)
  case Nil
  show ?case by simp
next
  case (Cons d ds)
  show ?case
  proof (cases "cell_less d c")
    case True
    with Cons show ?thesis by auto
  next
    case False
    with Cons.prems have cd: "cell_less c d"
      by (auto intro: cell_less_total)
    with Cons.prems have "\<forall>e \<in> set ds. cell_less c e"
      by (auto intro: cell_less_trans)
    with False cd Cons.prems show ?thesis by simp
  qed
qed

lemma set_cell_sort [simp]: "set (cell_sort cs) = set cs"
  by (induction cs) auto

lemma length_cell_sort [simp]: "length (cell_sort cs) = length cs"
  by (induction cs) auto

lemma sorted_cell_sort: "distinct cs \<Longrightarrow> sorted_wrt cell_less (cell_sort cs)"
  by (induction cs) (auto intro: sorted_cell_insort)

lemma sorted_wrt_cell_less_distinct: "sorted_wrt cell_less cs \<Longrightarrow> distinct cs"
  by (induction cs) (auto simp: cell_less_irrefl)

lemma inj_Cell_of_whole: "inj Cell_of_whole"
  by (metis cell_key_of_whole injI)

text \<open>The lists that the operations build hold no key twice.\<close>

lemma distinct_Organism_new: "distinct (cells_m Organism_new)"
  by (simp add: Organism_new_def)

lemma distinct_insert_cells:
  "distinct (cells_m org) \<Longrightarrow> distinct (cells_m (fst (insert_cells org L)))"
  by (simp add: insert_cells_def insert_cells_loop_distinct)

lemma distinct_tick: "tick org = Some org' \<Longrightarrow> distinct (cells_m org')"
  by (auto simp: tick_foldl distinct_foldl_cell_step)

section \<open>Distances\<close>

lemma sint_succ:
  fixes x :: cell_coord_type
  assumes "sint x \<noteq> 2 ^ 31 - 1"
  shows "sint (x + 1) = sint x + 1"
proof -
  have "sint x < 2 ^ 31" "- (2 ^ 31) \<le> sint x"
    using sint_lt [of x] sint_ge [of x] by simp_all
  with assms have "- (2 ^ 31) \<le> sint x + 1" "sint x + 1 < 2 ^ 31" by simp_all
  then have "signed_take_bit 31 (sint x + 1) = sint x + 1"
    by (simp add: signed_take_bit_int_eq_self)
  then show ?thesis by (simp add: sint_word_ariths)
qed

lemma sint_pred:
  fixes x :: cell_coord_type
  assumes "sint x \<noteq> - (2 ^ 31)"
  shows "sint (x - 1) = sint x - 1"
proof -
  have "sint x < 2 ^ 31" "- (2 ^ 31) \<le> sint x"
    using sint_lt [of x] sint_ge [of x] by simp_all
  with assms have "- (2 ^ 31) \<le> sint x - 1" "sint x - 1 < 2 ^ 31" by simp_all
  then have "signed_take_bit 31 (sint x - 1) = sint x - 1"
    by (simp add: signed_take_bit_int_eq_self)
  then show ?thesis by (simp add: sint_word_ariths)
qed

lemma sint_offset:
  fixes x :: cell_coord_type
  assumes "sint x \<noteq> - (2 ^ 31)" "sint x \<noteq> 2 ^ 31 - 1" "d = - 1 \<or> d = 0 \<or> d = 1"
  shows "\<bar>sint (x + d) - sint x\<bar> \<le> 1"
  using assms sint_succ [of x] sint_pred [of x] by auto

lemma offsets_range:
  "(dx, dy) \<in> set offsets \<Longrightarrow> (dx = - 1 \<or> dx = 0 \<or> dx = 1) \<and> (dy = - 1 \<or> dy = 0 \<or> dy = 1)"
  by (auto simp: offsets_def)

lemma moore_chebyshev:
  assumes "\<not> on_border (Cell_of_whole v)" "w \<in> set (moore (XX v) (YY v))"
  shows "chebyshev (Cell_of_whole w) (Cell_of_whole v) \<le> 1"
proof -
  from assms(2) obtain dx dy where d: "(dx, dy) \<in> set offsets"
    and w: "w = WW (XX v + dx) (YY v + dy)"
    by (auto simp: moore_offsets)
  from assms(1) have b: "sint (XX v) \<noteq> - (2 ^ 31)" "sint (XX v) \<noteq> 2 ^ 31 - 1"
      "sint (YY v) \<noteq> - (2 ^ 31)" "sint (YY v) \<noteq> 2 ^ 31 - 1"
    by (simp_all add: on_border_def Cell_of_whole_def)
  from offsets_range [OF d] b have "\<bar>sint (XX v + dx) - sint (XX v)\<bar> \<le> 1"
      "\<bar>sint (YY v + dy) - sint (YY v)\<bar> \<le> 1"
    by (simp_all add: sint_offset)
  then show ?thesis
    by (simp add: chebyshev_def Cell_of_whole_def w)
qed

lemma chebyshev_self [simp]: "chebyshev c c = 0"
  by (simp add: chebyshev_def)

text \<open>Away from the border the neighbours of the code are those of the lattice.\<close>

lemma chebyshev_sym: "chebyshev c d = chebyshev d c"
  by (simp add: chebyshev_def abs_minus_commute)

lemma coord_offset_iff:
  fixes a b :: cell_coord_type
  assumes "sint b \<noteq> - (2 ^ 31)" "sint b \<noteq> 2 ^ 31 - 1"
  shows "(a = b + 1 \<longleftrightarrow> sint a = sint b + 1)"
    and "(a = b - 1 \<longleftrightarrow> sint a = sint b - 1)"
    and "(a = b \<longleftrightarrow> sint a = sint b)"
proof -
  show "(a = b + 1 \<longleftrightarrow> sint a = sint b + 1)"
    using sint_succ [OF assms(2)] by (metis signed_word_eqI)
  show "(a = b - 1 \<longleftrightarrow> sint a = sint b - 1)"
    using sint_pred [OF assms(1)] by (metis signed_word_eqI)
  show "(a = b \<longleftrightarrow> sint a = sint b)"
    by (metis signed_word_eqI)
qed

lemma moore_adjacent_interior:
  assumes "\<not> on_border (Cell_of_whole v)"
  shows "w \<in> set (moore (XX v) (YY v)) \<longleftrightarrow> chebyshev (Cell_of_whole w) (Cell_of_whole v) = 1"
proof -
  from assms have b: "sint (XX v) \<noteq> - (2 ^ 31)" "sint (XX v) \<noteq> 2 ^ 31 - 1"
      "sint (YY v) \<noteq> - (2 ^ 31)" "sint (YY v) \<noteq> 2 ^ 31 - 1"
    by (simp_all add: on_border_def Cell_of_whole_def)
  note cx = coord_offset_iff [OF b(1,2), of "XX w"]
  note cy = coord_offset_iff [OF b(3,4), of "YY w"]
  have "w \<in> set (moore (XX v) (YY v)) \<longleftrightarrow> WW (XX w) (YY w) \<in> set (moore (XX v) (YY v))"
    by simp
  also have "\<dots> \<longleftrightarrow>
      max \<bar>sint (XX w) - sint (XX v)\<bar> \<bar>sint (YY w) - sint (YY v)\<bar> = 1"
    unfolding moore_def set_simps insert_iff empty_iff WW_eq_iff cx cy
    by (simp add: max_def abs_if) ((cases rule: linorder_cases [of "sint (XX w)" "sint (XX v)"];
        cases rule: linorder_cases [of "sint (YY w)" "sint (YY v)"]), linarith+)
  finally show ?thesis
    by (simp add: chebyshev_def Cell_of_whole_def)
qed

lemma moore_adjacent:
  assumes "\<not> on_border (Cell_of_whole v) \<or> \<not> on_border (Cell_of_whole w)"
  shows "w \<in> set (moore (XX v) (YY v)) \<longleftrightarrow> chebyshev (Cell_of_whole w) (Cell_of_whole v) = 1"
proof (cases "on_border (Cell_of_whole v)")
  case False
  then show ?thesis by (rule moore_adjacent_interior)
next
  case True
  with assms have w: "\<not> on_border (Cell_of_whole w)" by simp
  have "w \<in> set (moore (XX v) (YY v)) \<longleftrightarrow> v \<in> set (moore (XX w) (YY w))"
    using moore_sym [of w v] moore_sym [of v w] by blast
  also have "\<dots> \<longleftrightarrow> chebyshev (Cell_of_whole v) (Cell_of_whole w) = 1"
    using w by (rule moore_adjacent_interior)
  finally show ?thesis by (simp add: chebyshev_sym)
qed

lemma get_num_live_lattice:
  assumes "\<not> on_border (Cell x y) \<or> (\<forall>v \<in> set (cells_m org). \<not> on_border (Cell_of_whole v))"
  shows "get_num_live org x y = lattice_num_live org x y"
proof -
  have adj: "v \<in> set (moore x y) \<longleftrightarrow> chebyshev (Cell_of_whole v) (Cell x y) = 1"
    if "v \<in> set (cells_m org)" for v
    using moore_adjacent [of "WW x y" v] assms that by (auto simp: Cell_of_whole_def)
  have "get_num_live org x y = card ({w. w \<in> set (cells_m org)} \<inter> set (moore x y))"
    unfolding get_num_live_moore by (simp add: distinct_length_filter distinct_moore)
  also have "{w. w \<in> set (cells_m org)} \<inter> set (moore x y) =
      {v. chebyshev (Cell_of_whole v) (Cell x y) = 1} \<inter> set (remdups (cells_m org))"
    using adj by auto
  also have "card \<dots> = lattice_num_live org x y"
    unfolding lattice_num_live_def by (simp add: distinct_length_filter)
  finally show ?thesis .
qed

section \<open>The blinker\<close>

lemma blinker_seed:
  "insert_cells Organism_new [Cell 0 0, Cell 1 0, Cell 2 0] =
     (\<lparr>cells_m = [WW 0 0, WW 1 0, WW 2 0]\<rparr>, 3)"
  by (simp add: insert_cells_def lookup_insert_def Organism_new_def)

lemma blinker_tick1:
  "tick \<lparr>cells_m = [WW 0 0, WW 1 0, WW 2 0]\<rparr> = Some \<lparr>cells_m = [WW 1 (- 1), WW 1 1, WW 1 0]\<rparr>"
  by (simp add: tick_def rep8 get_dead_cells_def store_if_dead_step birth_loop.simps buf_read_def
      get_num_live_def is_alive_def lookup_insert_def)

lemma blinker_tick2:
  "tick \<lparr>cells_m = [WW 1 (- 1), WW 1 1, WW 1 0]\<rparr> = Some \<lparr>cells_m = [WW 0 0, WW 2 0, WW 1 0]\<rparr>"
  by (simp add: tick_def rep8 get_dead_cells_def store_if_dead_step birth_loop.simps buf_read_def
      get_num_live_def is_alive_def lookup_insert_def)

section \<open>The claims\<close>

text \<open>
  C1, as the code has it. After one call of \<^verbatim>\<open>tick\<close> the live-cell set is exactly the
  union of the cells that were alive and had 2 or 3 live neighbours (survival) and the
  cells that were dead and had exactly 3 live neighbours (birth); no other cell is in it.
  The call returns. The live-neighbour count is that of \<open>get_num_live\<close> on the old
  state, over the eight neighbours in 32-bit coordinate arithmetic. For a cell that is not
  on the border of the coordinate range it is the count on the lattice, and when no live
  cell is on the border the rule holds with the lattice count for every cell.
\<close>

theorem tick_life_rule:
  "\<exists>org'. tick org = Some org' \<and>
     set (cells_m org') =
       {c. c \<in> set (cells_m org) \<and>
          (get_num_live org (XX c) (YY c) = 2 \<or> get_num_live org (XX c) (YY c) = 3)}
       \<union> {d. d \<notin> set (cells_m org) \<and> get_num_live org (XX d) (YY d) = 3} \<and>
     (\<not> on_border (Cell x y) \<longrightarrow> get_num_live org x y = lattice_num_live org x y) \<and>
     ((\<forall>v \<in> set (cells_m org). \<not> on_border (Cell_of_whole v)) \<longrightarrow>
        set (cells_m org') =
          {c. c \<in> set (cells_m org) \<and>
             (lattice_num_live org (XX c) (YY c) = 2 \<or> lattice_num_live org (XX c) (YY c) = 3)}
          \<union> {d. d \<notin> set (cells_m org) \<and> lattice_num_live org (XX d) (YY d) = 3})"
proof -
  let ?new = "foldl (cell_step org) [] (cells_m org)"
  have rule: "set ?new =
       {c. c \<in> set (cells_m org) \<and>
          (get_num_live org (XX c) (YY c) = 2 \<or> get_num_live org (XX c) (YY c) = 3)}
       \<union> {d. d \<notin> set (cells_m org) \<and> get_num_live org (XX d) (YY d) = 3}"
    unfolding set_next_generation by (simp add: nlive_def)
  have interior: "\<not> on_border (Cell x y) \<longrightarrow> get_num_live org x y = lattice_num_live org x y"
    by (simp add: get_num_live_lattice)
  have lattice: "set ?new =
          {c. c \<in> set (cells_m org) \<and>
             (lattice_num_live org (XX c) (YY c) = 2 \<or> lattice_num_live org (XX c) (YY c) = 3)}
          \<union> {d. d \<notin> set (cells_m org) \<and> lattice_num_live org (XX d) (YY d) = 3}"
    if "\<forall>v \<in> set (cells_m org). \<not> on_border (Cell_of_whole v)"
  proof -
    from that have "get_num_live org a b = lattice_num_live org a b" for a b
      by (simp add: get_num_live_lattice)
    with rule show ?thesis by simp
  qed
  from rule interior lattice show ?thesis
    unfolding tick_foldl by simp
qed

theorem tick_life_rule_witness:
  "tick \<lparr>cells_m = [WW 0 0, WW 1 0, WW 2 0]\<rparr> = Some \<lparr>cells_m = [WW 1 (- 1), WW 1 1, WW 1 0]\<rparr> \<and>
   on_border (Cell 1 0) = False \<and>
   on_border (Cell_of_whole (WW 0 0)) = False \<and>
   on_border (Cell_of_whole (WW 1 0)) = False \<and>
   on_border (Cell_of_whole (WW 2 0)) = False \<and>
   get_num_live \<lparr>cells_m = [WW 0 0, WW 1 0, WW 2 0]\<rparr> 1 0 = 2 \<and>
   lattice_num_live \<lparr>cells_m = [WW 0 0, WW 1 0, WW 2 0]\<rparr> 1 0 = 2 \<and>
   lattice_num_live \<lparr>cells_m = [WW 0 0, WW 1 0, WW 2 0]\<rparr> 1 (- 1) = 3 \<and>
   lattice_num_live \<lparr>cells_m = [WW 0 0, WW 1 0, WW 2 0]\<rparr> 1 1 = 3 \<and>
   lattice_num_live \<lparr>cells_m = [WW 0 0, WW 1 0, WW 2 0]\<rparr> 0 0 = 1 \<and>
   lattice_num_live \<lparr>cells_m = [WW 0 0, WW 1 0, WW 2 0]\<rparr> 2 0 = 1"
  using tick_life_rule [of "\<lparr>cells_m = [WW 0 0, WW 1 0, WW 2 0]\<rparr>" 1 0]
  by (simp add: blinker_tick1 on_border_def Cell_of_whole_def get_num_live_def is_alive_def
      lattice_num_live_def chebyshev_def)

text \<open>
  C1, as stated with the neighbours of the lattice, fails on the border: with three live
  cells in the column \<open>x = 2147483647\<close> the dead cell \<open>(- 2147483648, 0)\<close> is born,
  although no live cell is at Chebyshev distance 1 from it; \<open>get_num_live\<close> counts 3
  there.
\<close>

theorem border_birth_counterexample:
  "tick \<lparr>cells_m = [WW 2147483647 (- 1), WW 2147483647 0, WW 2147483647 1]\<rparr> =
     Some \<lparr>cells_m = [WW 2147483646 0, WW (- 2147483648) 0, WW 2147483647 0]\<rparr> \<and>
   is_alive \<lparr>cells_m = [WW 2147483647 (- 1), WW 2147483647 0, WW 2147483647 1]\<rparr>
     (WW (- 2147483648) 0) = 0 \<and>
   lattice_num_live \<lparr>cells_m = [WW 2147483647 (- 1), WW 2147483647 0, WW 2147483647 1]\<rparr>
     (- 2147483648) 0 = 0 \<and>
   get_num_live \<lparr>cells_m = [WW 2147483647 (- 1), WW 2147483647 0, WW 2147483647 1]\<rparr>
     (- 2147483648) 0 = 3"
  by (simp add: tick_def rep8 get_dead_cells_def store_if_dead_step birth_loop.simps buf_read_def
      get_num_live_def is_alive_def lookup_insert_def lattice_num_live_def chebyshev_def
      Cell_of_whole_def)

text \<open>
  C3. The encoding is a bijection on pairs of signed 32-bit coordinates: decoding the
  key \<open>WW x y\<close> with \<open>XX\<close> and \<open>YY\<close> gives back \<open>x\<close> and \<open>y\<close>, the constructor
  \<^verbatim>\<open>Cell(cell_whole_type)\<close> gives back the cell, every key is the key of its decoding, and
  two distinct coordinate pairs have distinct keys.
\<close>

theorem encoding_bijective:
  "XX (WW x y) = x \<and> YY (WW x y) = y \<and> Cell_of_whole (WW x y) = Cell x y \<and>
   WW (XX w) (YY w) = w \<and>
   ((x, y) \<noteq> (x', y') \<longrightarrow> WW x y \<noteq> WW x' y')"
  by (simp add: Cell_of_whole_def)

theorem encoding_bijective_witness:
  "XX (WW 3 (- 7)) = 3 \<and> YY (WW 3 (- 7)) = - 7 \<and> Cell_of_whole (WW 3 (- 7)) = Cell 3 (- 7) \<and>
   WW (XX 0xFFFFFFF900000003) (YY 0xFFFFFFF900000003) = 0xFFFFFFF900000003 \<and>
   ((3 :: cell_coord_type, - 7 :: cell_coord_type) \<noteq> (- 7, 3)) \<and> WW 3 (- 7) \<noteq> WW (- 7) 3"
  using encoding_bijective [of 3 "- 7" "0xFFFFFFF900000003" "- 7" 3] by simp

text \<open>
  C2. The survival test of \<^verbatim>\<open>tick\<close> on the number of dead neighbours (5 or 6) is
  equivalent to the reference condition "2 or 3 live neighbours": for every cell the
  count \<^verbatim>\<open>ndead\<close> that \<open>get_dead_cells\<close> returns is 5 or 6 exactly when \<open>get_num_live\<close>
  is 2 or 3, and the stepper with the dead-count test computes the same result as the
  reference stepper \<open>tick_ref\<close>, which tests the live-neighbour count.
\<close>

theorem survival_test_equivalent:
  "tick_ref org = tick org \<and>
   (length z = 8 \<longrightarrow>
      (\<exists>ndead z'. get_dead_cells org (XX c) (YY c) z = Some (ndead, z') \<and>
         ((ndead = 5 \<or> ndead = 6) \<longleftrightarrow>
          (get_num_live org (XX c) (YY c) = 2 \<or> get_num_live org (XX c) (YY c) = 3))))"
proof (intro conjI impI)
  show "tick_ref org = tick org"
    by (simp add: tick_ref_def tick_def tick_loop_ref_eq)
next
  assume "length z = 8"
  then show "\<exists>ndead z'. get_dead_cells org (XX c) (YY c) z = Some (ndead, z') \<and>
         ((ndead = 5 \<or> ndead = 6) \<longleftrightarrow>
          (get_num_live org (XX c) (YY c) = 2 \<or> get_num_live org (XX c) (YY c) = 3))"
    using survive_iff [of org c] by (simp add: get_dead_cells_fits nlive_def)
qed

theorem survival_test_equivalent_witness:
  "tick_ref \<lparr>cells_m = [WW 0 0, WW 1 0, WW 2 0]\<rparr> = tick \<lparr>cells_m = [WW 0 0, WW 1 0, WW 2 0]\<rparr> \<and>
   length (replicate 8 (0 :: cell_whole_type)) = 8 \<and>
   get_dead_cells \<lparr>cells_m = [WW 0 0, WW 1 0, WW 2 0]\<rparr> 1 0 (replicate 8 0) =
     Some (6, [WW 0 (- 1), WW 0 1, WW 1 (- 1), WW 1 1, WW 2 (- 1), WW 2 1, 0, 0]) \<and>
   get_num_live \<lparr>cells_m = [WW 0 0, WW 1 0, WW 2 0]\<rparr> 1 0 = 2"
  using survival_test_equivalent
    [of "\<lparr>cells_m = [WW 0 0, WW 1 0, WW 2 0]\<rparr>" "replicate 8 0" "WW 1 0"]
  by (simp add: get_dead_cells_def store_if_dead_step get_num_live_def is_alive_def rep8)

text \<open>
  C4. Neighbour symmetry: for every organism and every coordinate pair, the number of
  live neighbours and the number of dead neighbours that \<open>get_dead_cells\<close> returns
  (into a buffer of eight entries) add up to 8.
\<close>

theorem neighbour_symmetry:
  assumes "length z = 8"
  shows "\<exists>n z'. get_dead_cells org x y z = Some (n, z') \<and> get_num_live org x y + n = 8"
  using get_dead_cells_fits [OF assms, of org "WW x y"] nlive_ndead [of org "WW x y"]
  by (simp add: nlive_def)

theorem neighbour_symmetry_witness:
  "length (replicate 8 (0 :: cell_whole_type)) = 8 \<and>
   get_dead_cells \<lparr>cells_m = [WW 1 0]\<rparr> 0 0 (replicate 8 0) =
     Some (7, [WW (- 1) (- 1), WW (- 1) 0, WW (- 1) 1, WW 0 (- 1), WW 0 1,
               WW 1 (- 1), WW 1 1, 0]) \<and>
   get_num_live \<lparr>cells_m = [WW 1 0]\<rparr> 0 0 = 1"
  using neighbour_symmetry [of "replicate 8 0" "\<lparr>cells_m = [WW 1 0]\<rparr>" 0 0]
  by (simp add: get_dead_cells_def store_if_dead_step get_num_live_def is_alive_def rep8)

text \<open>
  C9. \<open>get_dead_cells\<close> stays inside a buffer of eight entries: every write
  \<^verbatim>\<open>z[n++]\<close> is within bounds (the result is not \<open>None\<close>), the count it returns is at most
  8 and the buffer keeps its length; and in \<^verbatim>\<open>tick\<close> every write and every read
  \<^verbatim>\<open>zcells[i]\<close> with \<^verbatim>\<open>i < ndead\<close> is within the array, so \<open>tick\<close> returns a state.
\<close>

theorem buffer_in_bounds:
  "(length z = 8 \<longrightarrow>
      (\<exists>n z'. get_dead_cells org x y z = Some (n, z') \<and> n \<le> 8 \<and> length z' = 8)) \<and>
   (\<exists>org'. tick org = Some org')"
proof (intro conjI impI)
  assume z: "length z = 8"
  from get_dead_cells_fits [OF z, of org "WW x y"] length_dead_moore [of org "WW x y"] z
  show "\<exists>n z'. get_dead_cells org x y z = Some (n, z') \<and> n \<le> 8 \<and> length z' = 8"
    by simp
next
  show "\<exists>org'. tick org = Some org'"
    by (simp add: tick_foldl)
qed

theorem buffer_in_bounds_witness:
  "length (replicate 8 (0 :: cell_whole_type)) = 8 \<and>
   (\<exists>n z'. get_dead_cells Organism_new 5 5 (replicate 8 0) = Some (n, z') \<and> n \<le> 8 \<and>
      length z' = 8) \<and>
   (\<exists>org'. tick Organism_new = Some org')"
  using buffer_in_bounds [of "replicate 8 0" Organism_new 5 5] by simp

text \<open>
  C10. \<^verbatim>\<open>tick\<close> is deterministic in the set of live cells: two states with the same
  live-cell set, whatever the order in which each enumerates its cells, are taken by
  \<open>tick\<close> to states with the same live-cell set. The same set comes out of the pass
  over any enumeration \<open>es\<close> of the live cells, in any order and with cells visited
  more than once, and whatever the buffer holds at the start.
\<close>

theorem tick_deterministic:
  assumes "set (cells_m s) = set (cells_m t)" "set es = set (cells_m s)" "length z = 8"
  shows "\<exists>s' t' new. tick s = Some s' \<and> tick t = Some t' \<and>
           set (cells_m s') = set (cells_m t') \<and>
           tick_loop s es z [] = Some new \<and> set new = set (cells_m s')"
proof -
  from assms(1) have "set (foldl (cell_step s) [] (cells_m s)) = set (foldl (cell_step t) [] (cells_m t))"
    using nlive_cong [OF assms(1)] by (simp add: set_next_generation)
  moreover have "set (foldl (cell_step s) [] es) = set (foldl (cell_step s) [] (cells_m s))"
    using assms(2) by (rule set_foldl_cell_step_cong)
  ultimately show ?thesis
    using assms(3) by (simp add: tick_foldl tick_loop_foldl)
qed

theorem tick_deterministic_witness:
  "set (cells_m \<lparr>cells_m = [WW 0 0, WW 1 0, WW 2 0]\<rparr>) =
     set (cells_m \<lparr>cells_m = [WW 2 0, WW 0 0, WW 1 0]\<rparr>) \<and>
   set [WW 1 0, WW 2 0, WW 1 0, WW 0 0] = set (cells_m \<lparr>cells_m = [WW 0 0, WW 1 0, WW 2 0]\<rparr>) \<and>
   length (replicate 8 (7 :: cell_whole_type)) = 8 \<and>
   (\<exists>s' t' new. tick \<lparr>cells_m = [WW 0 0, WW 1 0, WW 2 0]\<rparr> = Some s' \<and>
        tick \<lparr>cells_m = [WW 2 0, WW 0 0, WW 1 0]\<rparr> = Some t' \<and>
        set (cells_m s') = set (cells_m t') \<and>
        tick_loop \<lparr>cells_m = [WW 0 0, WW 1 0, WW 2 0]\<rparr> [WW 1 0, WW 2 0, WW 1 0, WW 0 0]
          (replicate 8 7) [] = Some new \<and>
        set new = set (cells_m s'))"
proof -
  have h1: "set (cells_m \<lparr>cells_m = [WW 0 0, WW 1 0, WW 2 0]\<rparr>) =
      set (cells_m \<lparr>cells_m = [WW 2 0, WW 0 0, WW 1 0]\<rparr>)"
    by auto
  have h2: "set [WW 1 0, WW 2 0, WW 1 0, WW 0 0] =
      set (cells_m \<lparr>cells_m = [WW 0 0, WW 1 0, WW 2 0]\<rparr>)"
    by auto
  have h3: "length (replicate 8 (7 :: cell_whole_type)) = 8"
    by simp
  from h1 h2 h3 tick_deterministic [OF h1 h2 h3] show ?thesis by blast
qed

text \<open>
  C7. Insertion is idempotent: inserting a coordinate list a second time leaves the
  organism as the first insertion left it and returns 0. After one call the live-cell
  set is the old one together with the keys of the input, and the call returns the
  number of distinct input coordinates that were not alive before; coordinates repeated
  in the input or already alive add nothing, and there is no error.
\<close>

theorem insert_cells_idempotent:
  "fst (insert_cells (fst (insert_cells org L)) L) = fst (insert_cells org L) \<and>
   snd (insert_cells (fst (insert_cells org L)) L) = 0 \<and>
   set (cells_m (fst (insert_cells org L))) =
     set (cells_m org) \<union> (\<lambda>c. WW (cell_x c) (cell_y c)) ` set L \<and>
   snd (insert_cells org L) =
     card {c. c \<in> set L \<and> WW (cell_x c) (cell_y c) \<notin> set (cells_m org)}"
proof -
  let ?org1 = "fst (insert_cells org L)"
  have cells1: "set (cells_m ?org1) = set (cells_m org) \<union> cell_key ` set L"
    by (simp add: insert_cells_def insert_cells_loop_cells)
  then have again: "insert_cells ?org1 L = (?org1, 0)"
    unfolding insert_cells_def [of ?org1] by (intro insert_cells_loop_present) simp
  have "cell_key ` set L - set (cells_m org) = cell_key ` {c \<in> set L. cell_key c \<notin> set (cells_m org)}"
    by auto
  then have "card (cell_key ` set L - set (cells_m org)) = card {c \<in> set L. cell_key c \<notin> set (cells_m org)}"
    by (simp add: card_image inj_cell_key [THEN inj_on_subset])
  then have cnt: "snd (insert_cells org L) = card {c \<in> set L. cell_key c \<notin> set (cells_m org)}"
    by (simp add: insert_cells_def insert_cells_loop_count)
  from cells1 again cnt show ?thesis
    by (simp add: cell_key_def)
qed

text \<open>
  C8. Sorted output: for an organism whose set holds no key twice, \<open>get_live_cells\<close>
  returns every live cell exactly once, in strictly increasing order of \<^verbatim>\<open>operator<\<close>,
  which is the lexicographic order by signed x and then signed y, and the length of the
  result is \<open>count\<close>.
\<close>

theorem get_live_cells_sorted:
  assumes "distinct (cells_m org)"
  shows "sorted_wrt cell_less (get_live_cells org) \<and>
         distinct (get_live_cells org) \<and>
         set (get_live_cells org) = Cell_of_whole ` set (cells_m org) \<and>
         length (get_live_cells org) = count org \<and>
         (cell_less c d \<longleftrightarrow>
            sint (cell_x c) < sint (cell_x d) \<or>
            (sint (cell_x c) = sint (cell_x d) \<and> sint (cell_y c) < sint (cell_y d)))"
proof -
  from assms have "distinct (map Cell_of_whole (cells_m org))"
    by (simp add: distinct_map inj_Cell_of_whole [THEN inj_on_subset])
  then have "sorted_wrt cell_less (get_live_cells org)"
    unfolding get_live_cells_def by (rule sorted_cell_sort)
  then show ?thesis
    by (simp add: sorted_wrt_cell_less_distinct cell_less_alt [of c d])
      (simp add: get_live_cells_def count_def)
qed

theorem get_live_cells_sorted_witness:
  "distinct (cells_m \<lparr>cells_m = [WW 2 0, WW 1 1, WW 1 (- 1), WW (- 3) 4]\<rparr>) \<and>
   get_live_cells \<lparr>cells_m = [WW 2 0, WW 1 1, WW 1 (- 1), WW (- 3) 4]\<rparr> =
     [Cell (- 3) 4, Cell 1 (- 1), Cell 1 1, Cell 2 0] \<and>
   count \<lparr>cells_m = [WW 2 0, WW 1 1, WW 1 (- 1), WW (- 3) 4]\<rparr> = 4 \<and>
   cell_less (Cell (- 3) 4) (Cell 1 (- 1))"
  using get_live_cells_sorted [of "\<lparr>cells_m = [WW 2 0, WW 1 1, WW 1 (- 1), WW (- 3) 4]\<rparr>"
      "Cell (- 3) 4" "Cell 1 (- 1)"]
  by (simp add: get_live_cells_def Cell_of_whole_def cell_less_def count_def)

text \<open>
  C5, as the code has it. After one \<^verbatim>\<open>tick\<close> the population is finite, at most nine
  times the old one, and every live cell is a cell that was alive before or one of the eight neighbours, in 32-bit
  coordinate arithmetic, of a cell \<open>v\<close> that was alive before; it lies within Chebyshev
  distance 1 of \<open>v\<close> whenever \<open>v\<close> is not on the border of the coordinate range. So the
  bound holds for every population that has no live cell on the border.
\<close>

theorem tick_near_previous_generation:
  "\<exists>org'. tick org = Some org' \<and> finite (set (cells_m org')) \<and>
     count org' \<le> 9 * count org \<and>
     (\<forall>w \<in> set (cells_m org'). \<exists>v \<in> set (cells_m org).
        (w = v \<or> w \<in> set (moore (XX v) (YY v))) \<and>
        (\<not> on_border (Cell_of_whole v) \<longrightarrow>
           chebyshev (Cell_of_whole w) (Cell_of_whole v) \<le> 1))"
proof -
  let ?new = "foldl (cell_step org) [] (cells_m org)"
  have "\<exists>v \<in> set (cells_m org).
        (w = v \<or> w \<in> set (moore (XX v) (YY v))) \<and>
        (\<not> on_border (Cell_of_whole v) \<longrightarrow>
           chebyshev (Cell_of_whole w) (Cell_of_whole v) \<le> 1)" if "w \<in> set ?new" for w
  proof -
    from that consider "w \<in> set (cells_m org)" | "nlive org w = 3"
      unfolding set_next_generation by auto
    then show ?thesis
    proof cases
      case 1
      then show ?thesis by (intro bexI [of _ w]) simp_all
    next
      case 2
      from born_has_live_neighbour [OF 2] obtain v
        where v: "v \<in> set (cells_m org)" "w \<in> set (moore (XX v) (YY v))" by blast
      then show ?thesis by (intro bexI [of _ v]) (simp_all add: moore_chebyshev)
    qed
  qed
  moreover have "length ?new \<le> 9 * length (cells_m org)"
    using length_foldl_cell_step [of org "[]" "cells_m org"] by simp
  ultimately show ?thesis by (simp add: tick_foldl count_def)
qed

theorem tick_near_previous_generation_witness:
  "tick \<lparr>cells_m = [WW 0 0, WW 1 0, WW 2 0]\<rparr> =
     Some \<lparr>cells_m = [WW 1 (- 1), WW 1 1, WW 1 0]\<rparr> \<and>
   WW 1 0 \<in> set (cells_m \<lparr>cells_m = [WW 0 0, WW 1 0, WW 2 0]\<rparr>) \<and>
   on_border (Cell_of_whole (WW 1 0)) = False \<and>
   WW 1 (- 1) \<in> set (moore (XX (WW 1 0)) (YY (WW 1 0))) \<and>
   WW 1 1 \<in> set (moore (XX (WW 1 0)) (YY (WW 1 0))) \<and>
   chebyshev (Cell_of_whole (WW 1 (- 1))) (Cell_of_whole (WW 1 0)) = 1 \<and>
   chebyshev (Cell_of_whole (WW 1 1)) (Cell_of_whole (WW 1 0)) = 1 \<and>
   chebyshev (Cell_of_whole (WW 1 0)) (Cell_of_whole (WW 1 0)) = 0"
  using tick_near_previous_generation [of "\<lparr>cells_m = [WW 0 0, WW 1 0, WW 2 0]\<rparr>"]
  by (simp add: blinker_tick1 moore_def on_border_def chebyshev_def Cell_of_whole_def)

text \<open>
  C5, as stated, fails on the border: three live cells in the column
  \<open>x = 2147483647\<close> give birth to the cell \<open>(- 2147483648, 0)\<close>, whose Chebyshev
  distance to each of the three is \<open>4294967295\<close>.
\<close>

theorem border_cells_counterexample:
  "tick \<lparr>cells_m = [WW 2147483647 (- 1), WW 2147483647 0, WW 2147483647 1]\<rparr> =
     Some \<lparr>cells_m = [WW 2147483646 0, WW (- 2147483648) 0, WW 2147483647 0]\<rparr> \<and>
   chebyshev (Cell_of_whole (WW (- 2147483648) 0)) (Cell_of_whole (WW 2147483647 (- 1))) = 4294967295 \<and>
   chebyshev (Cell_of_whole (WW (- 2147483648) 0)) (Cell_of_whole (WW 2147483647 0)) = 4294967295 \<and>
   chebyshev (Cell_of_whole (WW (- 2147483648) 0)) (Cell_of_whole (WW 2147483647 1)) = 4294967295"
  by (simp add: tick_def rep8 get_dead_cells_def store_if_dead_step birth_loop.simps buf_read_def
      get_num_live_def is_alive_def lookup_insert_def chebyshev_def Cell_of_whole_def)

text \<open>
  C6. The blinker: seeding the empty organism with \<open>(0,0), (1,0), (2,0)\<close> and calling
  \<^verbatim>\<open>tick\<close> once gives exactly the vertical line \<open>(1,-1), (1,0), (1,1)\<close>; a second call gives
  back exactly the seeded horizontal line.
\<close>

theorem blinker_period_two:
  "get_live_cells (fst (insert_cells Organism_new [Cell 0 0, Cell 1 0, Cell 2 0])) =
     [Cell 0 0, Cell 1 0, Cell 2 0] \<and>
   map_option get_live_cells (tick (fst (insert_cells Organism_new [Cell 0 0, Cell 1 0, Cell 2 0]))) =
     Some [Cell 1 (- 1), Cell 1 0, Cell 1 1] \<and>
   map_option (\<lambda>org. set (cells_m org))
       (tick (fst (insert_cells Organism_new [Cell 0 0, Cell 1 0, Cell 2 0]))) =
     Some {WW 1 (- 1), WW 1 0, WW 1 1} \<and>
   map_option get_live_cells
       (tick (fst (insert_cells Organism_new [Cell 0 0, Cell 1 0, Cell 2 0])) \<bind> tick) =
     Some [Cell 0 0, Cell 1 0, Cell 2 0] \<and>
   map_option (\<lambda>org. set (cells_m org))
       (tick (fst (insert_cells Organism_new [Cell 0 0, Cell 1 0, Cell 2 0])) \<bind> tick) =
     Some (set (cells_m (fst (insert_cells Organism_new [Cell 0 0, Cell 1 0, Cell 2 0]))))"
  unfolding blinker_seed fst_conv blinker_tick1 bind.bind_lunit blinker_tick2
  by (auto simp: get_live_cells_def Cell_of_whole_def cell_less_def)

end
